theory Spec2Isabelle
  imports Main "HOL-Library.Word"
begin

section \<open>The machine: heap cells, operator new and delete, compare-and-swap\<close>

text \<open>
  The lock-free containers of \<^verbatim>\<open>Concepts/IPC/Synchronization Mechanisms/atomic.cpp\<close> and
  \<^verbatim>\<open>Concepts/Multithreading/04_atomic_operations.cpp\<close> are embedded as functions on an
  explicit machine state, for executions of a single thread.  A pointer is an address,
  \<open>nullptr\<close> is address \<open>0\<close>.  The heap \<open>cells\<close> maps the addresses of the live objects to their
  contents.  What \<^verbatim>\<open>operator new\<close> answers is not fixed by the program, so the machine
  carries an arbitrary \<open>allocator\<close> policy: from the current heap it names the address
  of the next object, or gives up.  An answer is only used when it is a non-null address
  with no live object; otherwise the allocation throws \<^verbatim>\<open>std::bad_alloc\<close>.  Likewise
  \<^verbatim>\<open>compare_exchange_weak\<close> may fail although the values compare equal; \<open>spurious\<close> lists,
  for the coming weak exchanges, whether each one fails this way (none does once the
  list is used up).
\<close>

type_synonym addr = nat

abbreviation nullptr :: addr where
  "nullptr \<equiv> 0"

type_synonym int32 = "32 word"

record 'c machine =
  cells :: "addr \<Rightarrow> 'c option"
  allocator :: "(addr \<Rightarrow> 'c option) \<Rightarrow> addr option"
  spurious :: "bool list"

text \<open>
  An operation returns normally with a value and the new state, or throws
  \<^verbatim>\<open>std::bad_alloc\<close> leaving a state behind, or has undefined behaviour (it reads or
  deletes through a pointer to no live object of the right type).
\<close>

datatype ('r, 's) result = Ok 'r 's | Bad_alloc 's | Undefined

definition out_of_memory :: "('c, 'm) machine_scheme \<Rightarrow> bool" where
  "out_of_memory s =
     (case allocator s (cells s) of
        None \<Rightarrow> True
      | Some a \<Rightarrow> a = nullptr \<or> cells s a \<noteq> None)"

definition new :: "'c \<Rightarrow> ('c, 'm) machine_scheme \<Rightarrow> (addr, ('c, 'm) machine_scheme) result" where
  "new c s =
     (case allocator s (cells s) of
        None \<Rightarrow> Bad_alloc s
      | Some a \<Rightarrow>
          if a = nullptr \<or> cells s a \<noteq> None then Bad_alloc s
          else Ok a (s\<lparr>cells := (cells s)(a \<mapsto> c)\<rparr>))"

definition delete :: "addr \<Rightarrow> ('c, 'm) machine_scheme \<Rightarrow> (unit, ('c, 'm) machine_scheme) result" where
  "delete a s =
     (if a = nullptr then Ok () s
      else case cells s a of
        None \<Rightarrow> Undefined
      | Some c \<Rightarrow> Ok () (s\<lparr>cells := (cells s)(a := None)\<rparr>))"

text \<open>
  \<open>compare_exchange_weak current expected sp\<close> tells whether the exchange succeeds: the
  atomic holds \<open>expected\<close> and the exchange does not fail spuriously.  The caller stores
  the desired value on success, reloads \<open>expected\<close> from the atomic on failure, and drops
  the head of \<open>spurious\<close> either way.
\<close>

definition compare_exchange_weak :: "addr \<Rightarrow> addr \<Rightarrow> bool list \<Rightarrow> bool" where
  "compare_exchange_weak current expected sp =
     (current = expected \<and> \<not> (case sp of [] \<Rightarrow> False | b # bs \<Rightarrow> b))"

definition compare_exchange_strong :: "addr \<Rightarrow> addr \<Rightarrow> bool" where
  "compare_exchange_strong current expected = (current = expected)"

text \<open>One allocator policy: first fit over the addresses \<open>1..n\<close>.\<close>

definition first_fit :: "nat \<Rightarrow> (addr \<Rightarrow> 'c option) \<Rightarrow> addr option" where
  "first_fit n h = find (\<lambda>a. h a = None) [1..<Suc n]"

section \<open>LockFreeStack of atomic.cpp\<close>

text \<open>
  \<^verbatim>\<open>struct Node { T data; std::atomic<Node*> next; }\<close> and the one field
  \<^verbatim>\<open>std::atomic<Node*> head_{nullptr}\<close> (written \<open>head\<close>).

  Of the member functions, \<open>pop\<close> and \<open>empty\<close> are embedded.  \<open>push\<close> (lines 52 to 60) is not:
  its loop \<^verbatim>\<open>while (!head_.compare_exchange_weak(new_node->next, new_node))\<close> hands
  \<^verbatim>\<open>new_node->next\<close>, a \<^verbatim>\<open>std::atomic<Node*>\<close>, to a parameter of type
  \<^verbatim>\<open>Node*&\<close>, which is ill-formed, so no instantiation of \<open>push\<close> exists and the function has
  no behaviour to embed.  The same holds for the destructor, whose line 47
  \<^verbatim>\<open>head_ = old_head->next\<close> assigns an atomic to an atomic.  The loop that compiles is the one
  of \<^verbatim>\<open>LockFreeStack\<close> in 04_atomic_operations.cpp, where \<open>next\<close> is a plain \<^verbatim>\<open>Node*\<close>; it
  is embedded below as \<open>push04_loop\<close>.  The stacks on which \<open>pop\<close> and \<open>empty\<close> are studied are
  therefore given by the representation invariant \<open>stack_inv\<close>, not by calls of \<open>push\<close>.
\<close>

record 'a Node =
  data :: 'a
  "next" :: addr

record 'a LockFreeStack = "'a Node machine" +
  head :: addr

definition LockFreeStack_ctor :: "'a LockFreeStack \<Rightarrow> 'a LockFreeStack" where
  "LockFreeStack_ctor s = s\<lparr>head := nullptr\<rparr>"

text \<open>
  The loop of \<open>pop\<close>:
  \<^verbatim>\<open>while (old_head && !head_.compare_exchange_weak(old_head, old_head->next.load()))\<close>.
  It returns the final \<open>old_head\<close>.
\<close>

function pop_loop :: "addr \<Rightarrow> 'a LockFreeStack \<Rightarrow> (addr, 'a LockFreeStack) result" where
  "pop_loop old_head s =
     (if old_head = nullptr then Ok nullptr s
      else case cells s old_head of
        None \<Rightarrow> Undefined
      | Some n \<Rightarrow>
          if compare_exchange_weak (head s) old_head (spurious s)
          then Ok old_head (s\<lparr>head := next n, spurious := tl (spurious s)\<rparr>)
          else pop_loop (head s) (s\<lparr>spurious := tl (spurious s)\<rparr>))"
  by pat_completeness auto
termination
  by (relation "measure (\<lambda>(p, s). 2 * length (spurious s) + (if p = head s then 0 else 1))")
     (auto simp: compare_exchange_weak_def split: list.splits if_splits)

declare pop_loop.simps [simp del]

text \<open>\<open>pop\<close> returns \<open>Some\<close> of the value written to \<open>result\<close> for true, \<open>None\<close> for false.\<close>

definition pop :: "'a LockFreeStack \<Rightarrow> ('a option, 'a LockFreeStack) result" where
  "pop s =
     (case pop_loop (head s) s of
        Bad_alloc s' \<Rightarrow> Bad_alloc s'
      | Undefined \<Rightarrow> Undefined
      | Ok old_head s1 \<Rightarrow>
          if old_head \<noteq> nullptr then
            (case cells s1 old_head of
               None \<Rightarrow> Undefined
             | Some n \<Rightarrow>
                 (case delete old_head s1 of
                    Ok u s2 \<Rightarrow> Ok (Some (data n)) s2
                  | Bad_alloc s' \<Rightarrow> Bad_alloc s'
                  | Undefined \<Rightarrow> Undefined))
          else Ok None s1)"

definition empty :: "'a LockFreeStack \<Rightarrow> bool" where
  "empty s = (head s = nullptr)"

text \<open>
  The loop \<^verbatim>\<open>while (stack.pop(value))\<close> of \<^verbatim>\<open>demonstrateLockFreeDataStructures\<close>, which
  collects what it pops.  A drain that never meets an empty stack has no result (\<open>None\<close>).
\<close>

partial_function (option) drain ::
  "'a list \<Rightarrow> 'a LockFreeStack \<Rightarrow> ('a list, 'a LockFreeStack) result option" where
  "drain acc s =
     (case pop s of
        Ok r s' \<Rightarrow> (case r of None \<Rightarrow> Some (Ok (rev acc) s') | Some v \<Rightarrow> drain (v # acc) s')
      | Bad_alloc s' \<Rightarrow> Some (Bad_alloc s')
      | Undefined \<Rightarrow> Some Undefined)"

declare drain.simps [code]

section \<open>ABAProneStack of 04_atomic_operations.cpp\<close>

text \<open>
  \<^verbatim>\<open>struct Node { int data; std::atomic<Node*> next; }\<close> with the field \<^verbatim>\<open>head_\<close>: the
  layout of the stack above at \<^verbatim>\<open>int\<close>, so the same records are used.
\<close>

type_synonym ABAProneStack = "int32 LockFreeStack"

text \<open>
  \<^verbatim>\<open>do { new_node->next.store(old_head); } while (!head_.compare_exchange_weak(old_head, new_node))\<close>
\<close>

function aba_push_loop :: "addr \<Rightarrow> addr \<Rightarrow> ABAProneStack \<Rightarrow> (unit, ABAProneStack) result" where
  "aba_push_loop new_node old_head s =
     (case cells s new_node of
        None \<Rightarrow> Undefined
      | Some n \<Rightarrow>
          if compare_exchange_weak (head s) old_head (spurious s)
          then Ok () (s\<lparr>cells := (cells s)(new_node \<mapsto> n\<lparr>next := old_head\<rparr>),
                        head := new_node, spurious := tl (spurious s)\<rparr>)
          else aba_push_loop new_node (head s)
                 (s\<lparr>cells := (cells s)(new_node \<mapsto> n\<lparr>next := old_head\<rparr>),
                    spurious := tl (spurious s)\<rparr>))"
  by pat_completeness auto
termination
  by (relation "measure (\<lambda>(p, e, s). 2 * length (spurious s) + (if e = head s then 0 else 1))")
     (auto simp: compare_exchange_weak_def split: list.splits if_splits)

declare aba_push_loop.simps [simp del]

definition aba_push :: "int32 \<Rightarrow> ABAProneStack \<Rightarrow> (unit, ABAProneStack) result" where
  "aba_push d s =
     (case new \<lparr>data = d, next = nullptr\<rparr> s of
        Bad_alloc s' \<Rightarrow> Bad_alloc s'
      | Undefined \<Rightarrow> Undefined
      | Ok new_node s1 \<Rightarrow> aba_push_loop new_node (head s1) s1)"

text \<open>
  \<open>aba_pop_from old_head\<close> is \<open>pop\<close> after its first line \<^verbatim>\<open>Node* old_head = head_.load()\<close>:
  one \<^verbatim>\<open>compare_exchange_strong\<close>, and false when it fails.
\<close>

definition aba_pop_from :: "addr \<Rightarrow> ABAProneStack \<Rightarrow> (int32 option, ABAProneStack) result" where
  "aba_pop_from old_head s =
     (if old_head = nullptr then Ok None s
      else case cells s old_head of
        None \<Rightarrow> Undefined
      | Some n \<Rightarrow>
          if compare_exchange_strong (head s) old_head then
            (case delete old_head (s\<lparr>head := next n\<rparr>) of
               Ok u s2 \<Rightarrow> Ok (Some (data n)) s2
             | Bad_alloc s' \<Rightarrow> Bad_alloc s'
             | Undefined \<Rightarrow> Undefined)
          else Ok None s)"

definition aba_pop :: "ABAProneStack \<Rightarrow> (int32 option, ABAProneStack) result" where
  "aba_pop s = aba_pop_from (head s) s"

section \<open>Heaps of nodes that point to their payload\<close>

text \<open>
  The nodes of \<^verbatim>\<open>LockFreeStack\<close> of 04_atomic_operations.cpp
  (\<^verbatim>\<open>struct Node { std::atomic<T*> data; Node* next; }\<close>) and of \<^verbatim>\<open>LockFreeQueue\<close> of
  atomic.cpp (\<^verbatim>\<open>struct Node { std::atomic<T*> data; std::atomic<Node*> next; }\<close>) hold a
  pointer to the payload and a pointer to the next node (fields \<open>pdata\<close>, \<open>pnext\<close>); the
  payload is an object of its own, allocated with \<^verbatim>\<open>new T\<close>, so the heap holds two types
  of objects.
\<close>

record PtrNode =
  pdata :: addr
  pnext :: addr

datatype 'a object = T_obj 'a | Node_obj PtrNode

definition load_Node :: "('a object, 'm) machine_scheme \<Rightarrow> addr \<Rightarrow> PtrNode option" where
  "load_Node s a = (case cells s a of Some (Node_obj n) \<Rightarrow> Some n | _ \<Rightarrow> None)"

definition load_T :: "('a object, 'm) machine_scheme \<Rightarrow> addr \<Rightarrow> 'a option" where
  "load_T s a = (case cells s a of Some (T_obj v) \<Rightarrow> Some v | _ \<Rightarrow> None)"

section \<open>LockFreeStack of 04_atomic_operations.cpp\<close>

record 'a LockFreeStack04 = "'a object machine" +
  head04 :: addr

definition LockFreeStack04_ctor :: "'a LockFreeStack04 \<Rightarrow> 'a LockFreeStack04" where
  "LockFreeStack04_ctor s = s\<lparr>head04 := nullptr\<rparr>"

function push04_loop :: "addr \<Rightarrow> 'a LockFreeStack04 \<Rightarrow> (unit, 'a LockFreeStack04) result" where
  "push04_loop new_node s =
     (case load_Node s new_node of
        None \<Rightarrow> Undefined
      | Some n \<Rightarrow>
          if compare_exchange_weak (head04 s) (pnext n) (spurious s)
          then Ok () (s\<lparr>head04 := new_node, spurious := tl (spurious s)\<rparr>)
          else push04_loop new_node
                 (s\<lparr>cells := (cells s)(new_node \<mapsto> Node_obj (n\<lparr>pnext := head04 s\<rparr>)),
                    spurious := tl (spurious s)\<rparr>))"
  by pat_completeness auto
termination
  by (relation "measure (\<lambda>(p, s). 2 * length (spurious s) +
        (case load_Node s p of None \<Rightarrow> 0 | Some n \<Rightarrow> if pnext n = head04 s then 0 else 1))")
     (auto simp: compare_exchange_weak_def load_Node_def split: list.splits if_splits)

declare push04_loop.simps [simp del]

text \<open>
  \<open>push\<close>: \<^verbatim>\<open>new Node\<close>, then \<^verbatim>\<open>new T(std::move(item))\<close> stored in \<^verbatim>\<open>new_node->data\<close>, then
  \<^verbatim>\<open>new_node->next = head_.load()\<close> and the loop.
\<close>

definition push04 :: "'a \<Rightarrow> 'a LockFreeStack04 \<Rightarrow> (unit, 'a LockFreeStack04) result" where
  "push04 item s =
     (case new (Node_obj \<lparr>pdata = nullptr, pnext = nullptr\<rparr>) s of
        Bad_alloc s' \<Rightarrow> Bad_alloc s'
      | Undefined \<Rightarrow> Undefined
      | Ok new_node s1 \<Rightarrow>
          (case new (T_obj item) s1 of
             Bad_alloc s' \<Rightarrow> Bad_alloc s'
           | Undefined \<Rightarrow> Undefined
           | Ok t s2 \<Rightarrow>
               (case load_Node s2 new_node of
                  None \<Rightarrow> Undefined
                | Some n \<Rightarrow>
                    push04_loop new_node
                      (s2\<lparr>cells := (cells s2)(new_node \<mapsto>
                             Node_obj (n\<lparr>pdata := t, pnext := head04 s2\<rparr>))\<rparr>))))"

function pop04_loop :: "addr \<Rightarrow> 'a LockFreeStack04 \<Rightarrow> (addr, 'a LockFreeStack04) result" where
  "pop04_loop old_head s =
     (if old_head = nullptr then Ok nullptr s
      else case load_Node s old_head of
        None \<Rightarrow> Undefined
      | Some n \<Rightarrow>
          if compare_exchange_weak (head04 s) old_head (spurious s)
          then Ok old_head (s\<lparr>head04 := pnext n, spurious := tl (spurious s)\<rparr>)
          else pop04_loop (head04 s) (s\<lparr>spurious := tl (spurious s)\<rparr>))"
  by pat_completeness auto
termination
  by (relation "measure (\<lambda>(p, s). 2 * length (spurious s) + (if p = head04 s then 0 else 1))")
     (auto simp: compare_exchange_weak_def split: list.splits if_splits)

declare pop04_loop.simps [simp del]

text \<open>
  \<open>pop\<close> returns the \<^verbatim>\<open>std::unique_ptr<T>\<close> as the address it owns (\<open>nullptr\<close> when the
  stack was empty); the payload object stays live until the owner destroys it.
\<close>

definition pop04 :: "'a LockFreeStack04 \<Rightarrow> (addr, 'a LockFreeStack04) result" where
  "pop04 s =
     (case pop04_loop (head04 s) s of
        Bad_alloc s' \<Rightarrow> Bad_alloc s'
      | Undefined \<Rightarrow> Undefined
      | Ok old_head s1 \<Rightarrow>
          if old_head \<noteq> nullptr then
            (case load_Node s1 old_head of
               None \<Rightarrow> Undefined
             | Some n \<Rightarrow>
                 (case delete old_head s1 of
                    Ok u s2 \<Rightarrow> Ok (pdata n) s2
                  | Bad_alloc s' \<Rightarrow> Bad_alloc s'
                  | Undefined \<Rightarrow> Undefined))
          else Ok nullptr s1)"

definition empty04 :: "'a LockFreeStack04 \<Rightarrow> bool" where
  "empty04 s = (head04 s = nullptr)"

text \<open>
  A caller that reads the popped value through the \<^verbatim>\<open>unique_ptr\<close> and lets it go out of
  scope, which deletes the payload.
\<close>

definition pop04_value :: "'a LockFreeStack04 \<Rightarrow> ('a option, 'a LockFreeStack04) result" where
  "pop04_value s =
     (case pop04 s of
        Bad_alloc s' \<Rightarrow> Bad_alloc s'
      | Undefined \<Rightarrow> Undefined
      | Ok item s1 \<Rightarrow>
          if item \<noteq> nullptr then
            (case load_T s1 item of
               None \<Rightarrow> Undefined
             | Some v \<Rightarrow>
                 (case delete item s1 of
                    Ok u s2 \<Rightarrow> Ok (Some v) s2
                  | Bad_alloc s' \<Rightarrow> Bad_alloc s'
                  | Undefined \<Rightarrow> Undefined))
          else Ok None s1)"

section \<open>LockFreeQueue of atomic.cpp\<close>

record 'a LockFreeQueue = "'a object machine" +
  q_head :: addr
  q_tail :: addr

text \<open>
  Of the member functions, the constructor and \<open>dequeue\<close> are embedded.  \<open>enqueue\<close> (lines 109
  to 132) is not: its last statement \<^verbatim>\<open>tail_.compare_exchange_weak(tail_.load(), new_node)\<close>
  hands the value of \<^verbatim>\<open>tail_.load()\<close> to a parameter of type \<^verbatim>\<open>Node*&\<close>, which is ill-formed,
  so no instantiation of \<open>enqueue\<close> exists and the function has no behaviour to embed.  (The
  exchanges of \<open>dequeue\<close> pass the local variables \<open>first\<close> and \<open>last\<close>.)  The queues on which
  \<open>dequeue\<close> is studied are therefore the result of the constructor and, beyond it, the
  states given by the representation invariant \<open>queue_inv\<close>, not the results of calls of
  \<open>enqueue\<close>.

  The constructor: \<^verbatim>\<open>Node* dummy = new Node; head_.store(dummy); tail_.store(dummy);\<close>
  on the storage of the queue object, whose two fields hold anything before.
\<close>

definition LockFreeQueue_ctor :: "'a LockFreeQueue \<Rightarrow> (unit, 'a LockFreeQueue) result" where
  "LockFreeQueue_ctor s =
     (case new (Node_obj \<lparr>pdata = nullptr, pnext = nullptr\<rparr>) s of
        Bad_alloc s' \<Rightarrow> Bad_alloc s'
      | Undefined \<Rightarrow> Undefined
      | Ok dummy s1 \<Rightarrow> Ok () (s1\<lparr>q_head := dummy, q_tail := dummy\<rparr>))"

text \<open>
  One pass through the body of a \<^verbatim>\<open>while (true)\<close> loop either leaves the loop (\<open>Return\<close>: by
  \<^verbatim>\<open>break\<close>, \<^verbatim>\<open>return\<close> or undefined behaviour) or starts the next pass in a new state.
\<close>

datatype ('r, 's) iteration = Return "('r, 's) result" | Continue 's

definition dequeue_iter :: "'a LockFreeQueue \<Rightarrow> ('a option, 'a LockFreeQueue) iteration" where
  "dequeue_iter s =
     (let first = q_head s; last = q_tail s in
      case load_Node s first of
        None \<Rightarrow> Return Undefined
      | Some fn \<Rightarrow>
          let next = pnext fn in
          if first = q_head s then
            if first = last then
              if next = nullptr then Return (Ok None s)
              else
                if compare_exchange_weak (q_tail s) last (spurious s)
                then Continue (s\<lparr>q_tail := next, spurious := tl (spurious s)\<rparr>)
                else Continue (s\<lparr>spurious := tl (spurious s)\<rparr>)
            else
              if next = nullptr then Continue s
              else
                (case load_Node s next of
                   None \<Rightarrow> Return Undefined
                 | Some nn \<Rightarrow>
                     let d = pdata nn in
                     if d = nullptr then Continue s
                     else
                       if compare_exchange_weak (q_head s) first (spurious s) then
                         (let s1 = s\<lparr>q_head := next, spurious := tl (spurious s)\<rparr> in
                          case load_T s1 d of
                            None \<Rightarrow> Return Undefined
                          | Some v \<Rightarrow>
                              (case delete d s1 of
                                 Ok u s2 \<Rightarrow>
                                   (case delete first s2 of
                                      Ok u' s3 \<Rightarrow> Return (Ok (Some v) s3)
                                    | Bad_alloc s' \<Rightarrow> Return (Bad_alloc s')
                                    | Undefined \<Rightarrow> Return Undefined)
                               | Bad_alloc s' \<Rightarrow> Return (Bad_alloc s')
                               | Undefined \<Rightarrow> Return Undefined))
                       else Continue (s\<lparr>spurious := tl (spurious s)\<rparr>))
          else Continue s)"

text \<open>
  \<open>dequeue\<close> returns \<open>Some\<close> of the value written to \<open>result\<close> for true and \<open>None\<close> for
  false; a call that loops forever has no result.  \<open>drain_queue\<close> is the loop
  \<^verbatim>\<open>while (queue.dequeue(str_value))\<close> of \<^verbatim>\<open>demonstrateLockFreeDataStructures\<close>.
\<close>

partial_function (option) dequeue ::
  "'a LockFreeQueue \<Rightarrow> ('a option, 'a LockFreeQueue) result option" where
  "dequeue s =
     (case dequeue_iter s of
        Return r \<Rightarrow> Some r
      | Continue s' \<Rightarrow> dequeue s')"

declare dequeue.simps [code]

partial_function (option) drain_queue ::
  "'a list \<Rightarrow> 'a LockFreeQueue \<Rightarrow> ('a list, 'a LockFreeQueue) result option" where
  "drain_queue acc s =
     (case dequeue s of
        None \<Rightarrow> None
      | Some r \<Rightarrow>
          (case r of
             Ok v s' \<Rightarrow>
               (case v of None \<Rightarrow> Some (Ok (rev acc) s') | Some x \<Rightarrow> drain_queue (x # acc) s')
           | Bad_alloc s' \<Rightarrow> Some (Bad_alloc s')
           | Undefined \<Rightarrow> Some Undefined))"

declare drain_queue.simps [code]

section \<open>Representation invariants\<close>

text \<open>
  \<open>chain nx p as\<close>: following the next-pointers \<open>nx\<close> from \<open>p\<close> visits exactly the nodes
  \<open>as\<close>, in this order, and then reaches \<open>nullptr\<close>.
\<close>

fun chain :: "(addr \<Rightarrow> addr option) \<Rightarrow> addr \<Rightarrow> addr list \<Rightarrow> bool" where
  "chain nx p [] = (p = nullptr)"
| "chain nx p (a # as) =
     (p = a \<and> a \<noteq> nullptr \<and> (case nx a of None \<Rightarrow> False | Some q \<Rightarrow> chain nx q as))"

text \<open>
  \<open>stack_inv s as xs\<close>: the nodes reachable from \<open>head\<close> are \<open>as\<close>, all live and different,
  and they hold the elements \<open>xs\<close>, most recent first.
\<close>

definition stack_inv :: "'a LockFreeStack \<Rightarrow> addr list \<Rightarrow> 'a list \<Rightarrow> bool" where
  "stack_inv s as xs =
     (chain (\<lambda>a. map_option next (cells s a)) (head s) as \<and> distinct as \<and>
      map (\<lambda>a. map_option data (cells s a)) as = map Some xs)"

definition links :: "('a object, 'm) machine_scheme \<Rightarrow> addr \<Rightarrow> addr option" where
  "links s a = map_option pnext (load_Node s a)"

definition payload_ptr :: "('a object, 'm) machine_scheme \<Rightarrow> addr \<Rightarrow> addr" where
  "payload_ptr s a = (case load_Node s a of None \<Rightarrow> nullptr | Some n \<Rightarrow> pdata n)"

definition payload :: "('a object, 'm) machine_scheme \<Rightarrow> addr \<Rightarrow> 'a option" where
  "payload s a = load_T s (payload_ptr s a)"

text \<open>
  \<open>payloads s as xs\<close>: the nodes \<open>as\<close> point to different live payload objects, which hold
  the elements \<open>xs\<close>.
\<close>

definition payloads :: "('a object, 'm) machine_scheme \<Rightarrow> addr list \<Rightarrow> 'a list \<Rightarrow> bool" where
  "payloads s as xs =
     (distinct (map (payload_ptr s) as) \<and> nullptr \<notin> set (map (payload_ptr s) as) \<and>
      map (payload s) as = map Some xs)"

definition stack04_inv :: "'a LockFreeStack04 \<Rightarrow> addr list \<Rightarrow> 'a list \<Rightarrow> bool" where
  "stack04_inv s as xs =
     (chain (links s) (head04 s) as \<and> distinct as \<and> payloads s as xs)"

text \<open>
  \<open>queue_inv s as xs\<close>: the nodes reachable from \<open>q_head\<close> are \<open>as\<close>, all live and
  different; the first one is the dummy, the others hold the elements \<open>xs\<close>, oldest
  first; \<open>q_tail\<close> is the last node or the one before it.
\<close>

definition queue_inv :: "'a LockFreeQueue \<Rightarrow> addr list \<Rightarrow> 'a list \<Rightarrow> bool" where
  "queue_inv s as xs =
     (as \<noteq> [] \<and> chain (links s) (q_head s) as \<and> distinct as \<and>
      (q_tail s = last as \<or> (butlast as \<noteq> [] \<and> q_tail s = last (butlast as))) \<and>
      payloads s (tl as) xs)"

section \<open>Callers\<close>


text \<open>
  A caller that applies a sequence of calls to the stack of 04_atomic_operations.cpp and
  records what it sees: the value of each \<open>pop\<close> (\<open>None\<close> for a null \<^verbatim>\<open>unique_ptr\<close>) and
  the answer of each \<open>empty\<close>.
\<close>

datatype 'a operation = Push 'a | Pop | Empty

datatype 'a observation = Popped "'a option" | Emptiness bool

fun run04 ::
  "'a operation list \<Rightarrow> 'a LockFreeStack04 \<Rightarrow> ('a observation list, 'a LockFreeStack04) result" where
  "run04 [] s = Ok [] s"
| "run04 (Push x # ops) s =
     (case push04 x s of
        Ok u s' \<Rightarrow> run04 ops s'
      | Bad_alloc s' \<Rightarrow> Bad_alloc s'
      | Undefined \<Rightarrow> Undefined)"
| "run04 (Pop # ops) s =
     (case pop04_value s of
        Ok r s' \<Rightarrow>
          (case run04 ops s' of
             Ok obs s'' \<Rightarrow> Ok (Popped r # obs) s''
           | Bad_alloc s'' \<Rightarrow> Bad_alloc s''
           | Undefined \<Rightarrow> Undefined)
      | Bad_alloc s' \<Rightarrow> Bad_alloc s'
      | Undefined \<Rightarrow> Undefined)"
| "run04 (Empty # ops) s =
     (case run04 ops s of
        Ok obs s' \<Rightarrow> Ok (Emptiness (empty04 s) # obs) s'
      | Bad_alloc s' \<Rightarrow> Bad_alloc s'
      | Undefined \<Rightarrow> Undefined)"

text \<open>What a sequential LIFO stack holding the list \<open>xs\<close> (top first) shows to that caller.\<close>

fun lifo :: "'a operation list \<Rightarrow> 'a list \<Rightarrow> 'a observation list" where
  "lifo [] xs = []"
| "lifo (Push x # ops) xs = lifo ops (x # xs)"
| "lifo (Pop # ops) [] = Popped None # lifo ops []"
| "lifo (Pop # ops) (x # xs) = Popped (Some x) # lifo ops xs"
| "lifo (Empty # ops) xs = Emptiness (xs = []) # lifo ops xs"

text \<open>
  Storage for a container that is not constructed yet, on a first-fit machine with \<open>n\<close>
  addresses, an empty heap and the given spurious failures to come.
\<close>

definition raw_stack :: "nat \<Rightarrow> bool list \<Rightarrow> 'a LockFreeStack" where
  "raw_stack n sp = \<lparr>cells = Map.empty, allocator = first_fit n, spurious = sp, head = 5\<rparr>"

definition raw_stack04 :: "nat \<Rightarrow> bool list \<Rightarrow> 'a LockFreeStack04" where
  "raw_stack04 n sp = \<lparr>cells = Map.empty, allocator = first_fit n, spurious = sp, head04 = 5\<rparr>"

definition raw_queue :: "nat \<Rightarrow> bool list \<Rightarrow> 'a LockFreeQueue" where
  "raw_queue n sp =
     \<lparr>cells = Map.empty, allocator = first_fit n, spurious = sp, q_head = 5, q_tail = 6\<rparr>"

section \<open>Concrete states\<close>

text \<open>
  States of a machine with eight addresses and a first-fit allocator, written out: a
  stack holding 1, a stack holding 2 above 1, and the stack holding 1 after \<open>pop\<close>; a queue
  as constructed, a queue holding 7 (with \<open>tail\<close> at the last node, and with \<open>tail\<close> one node
  behind it), and the queue holding 7 after \<open>dequeue\<close>.
\<close>

definition one_pushed :: ABAProneStack where
  "one_pushed =
     \<lparr>cells = [1 \<mapsto> \<lparr>data = 1, next = nullptr\<rparr>], allocator = first_fit 8, spurious = [],
      head = 1\<rparr>"

definition two_pushed :: ABAProneStack where
  "two_pushed =
     \<lparr>cells = [1 \<mapsto> \<lparr>data = 1, next = nullptr\<rparr>, 2 \<mapsto> \<lparr>data = 2, next = 1\<rparr>],
      allocator = first_fit 8, spurious = [], head = 2\<rparr>"

definition one_popped :: ABAProneStack where
  "one_popped = \<lparr>cells = Map.empty, allocator = first_fit 8, spurious = [], head = nullptr\<rparr>"

definition one_enqueued :: "int32 LockFreeQueue" where
  "one_enqueued =
     \<lparr>cells = [1 \<mapsto> Node_obj \<lparr>pdata = nullptr, pnext = 2\<rparr>,
               2 \<mapsto> Node_obj \<lparr>pdata = 3, pnext = nullptr\<rparr>, 3 \<mapsto> T_obj 7],
      allocator = first_fit 8, spurious = [], q_head = 1, q_tail = 2\<rparr>"

definition one_dequeued :: "int32 LockFreeQueue" where
  "one_dequeued =
     \<lparr>cells = [2 \<mapsto> Node_obj \<lparr>pdata = 3, pnext = nullptr\<rparr>],
      allocator = first_fit 8, spurious = [], q_head = 2, q_tail = 2\<rparr>"

definition lagging_tail :: "int32 LockFreeQueue" where
  "lagging_tail =
     \<lparr>cells = [1 \<mapsto> Node_obj \<lparr>pdata = nullptr, pnext = 2\<rparr>,
               2 \<mapsto> Node_obj \<lparr>pdata = 3, pnext = nullptr\<rparr>, 3 \<mapsto> T_obj 7],
      allocator = first_fit 8, spurious = [], q_head = 1, q_tail = 1\<rparr>"

definition empty_queue :: "int32 LockFreeQueue" where
  "empty_queue =
     \<lparr>cells = [1 \<mapsto> Node_obj \<lparr>pdata = nullptr, pnext = nullptr\<rparr>],
      allocator = first_fit 8, spurious = [], q_head = 1, q_tail = 1\<rparr>"



section \<open>The allocator and chains of nodes\<close>

lemma new_Ok:
  "new c s = Ok a s' \<Longrightarrow> a \<noteq> nullptr \<and> cells s a = None \<and> s' = s\<lparr>cells := (cells s)(a \<mapsto> c)\<rparr>"
  by (auto simp: new_def split: option.splits if_splits)

lemma new_Bad_alloc: "new c s = Bad_alloc s' \<Longrightarrow> s' = s \<and> out_of_memory s"
  by (auto simp: new_def out_of_memory_def split: option.splits if_splits)

lemma new_not_Undefined: "new c s \<noteq> Undefined"
  by (auto simp: new_def split: option.splits if_splits)


lemma chain_cong:
  "\<forall>a \<in> set as. nx a = nx' a \<Longrightarrow> chain nx p as = chain nx' p as"
  by (induction as arbitrary: p) (auto split: option.splits)

lemma chain_nonnull: "chain nx p as \<Longrightarrow> nullptr \<notin> set as"
  by (induction as arbitrary: p) (auto split: option.splits)

lemma chain_live: "chain nx p as \<Longrightarrow> a \<in> set as \<Longrightarrow> nx a \<noteq> None"
  by (induction as arbitrary: p) (auto split: option.splits)

lemma chain_null: "chain nx nullptr as \<longleftrightarrow> as = []"
  by (cases as) auto

lemma chain_functional: "chain nx p as \<Longrightarrow> chain nx p bs \<Longrightarrow> as = bs"
proof (induction as arbitrary: p bs)
  case Nil
  then show ?case by (cases bs) auto
next
  case (Cons a as)
  then show ?case by (cases bs) (auto split: option.splits)
qed

section \<open>LockFreeStack of atomic.cpp: pop and the invariant\<close>

lemma stack_inv_extend:
  assumes "stack_inv s as xs" and "a \<noteq> nullptr" and "cells s a = None"
    and "cells s' = (cells s)(a \<mapsto> \<lparr>data = x, next = head s\<rparr>)" and "head s' = a"
  shows "stack_inv s' (a # as) (x # xs)"
proof -
  from assms(1) have ch: "chain (\<lambda>a. map_option next (cells s a)) (head s) as"
    and d: "distinct as" and v: "map (\<lambda>a. map_option data (cells s a)) as = map Some xs"
    by (auto simp: stack_inv_def)
  have notin: "a \<notin> set as" using chain_live[OF ch, of a] assms(3) by auto
  have "chain (\<lambda>b. map_option next (cells s' b)) (head s) as"
    using ch notin chain_cong[of as "\<lambda>b. map_option next (cells s' b)" "\<lambda>a. map_option next (cells s a)" "head s"]
    by (auto simp: assms(4))
  moreover have "map (\<lambda>b. map_option data (cells s' b)) as = map (\<lambda>a. map_option data (cells s a)) as"
    using notin by (auto simp: assms(4))
  ultimately show ?thesis
    using assms(2,5) d notin v by (simp add: stack_inv_def assms(4))
qed

lemma pop_loop_empty: "pop_loop nullptr s = Ok nullptr s"
  by (subst pop_loop.simps) simp

lemma pop_loop_result:
  "p = head s \<Longrightarrow> p \<noteq> nullptr \<Longrightarrow> cells s p = Some n \<Longrightarrow>
   \<exists>s'. pop_loop p s = Ok p s' \<and> cells s' = cells s \<and> head s' = next n"
proof (induction p s rule: pop_loop.induct)
  case (1 p s)
  show ?case
  proof (cases "compare_exchange_weak (head s) p (spurious s)")
    case True
    then show ?thesis using "1.prems" by (subst pop_loop.simps) auto
  next
    case False
    from "1.IH"[OF "1.prems"(2) "1.prems"(3) False] "1.prems"
    show ?thesis using False by (subst pop_loop.simps) auto
  qed
qed

lemma pop_empty: "head s = nullptr \<Longrightarrow> pop s = Ok None s"
  by (simp add: pop_def pop_loop_empty)

lemma pop_result:
  assumes "head s \<noteq> nullptr" and "cells s (head s) = Some n"
  shows "\<exists>s'. pop s = Ok (Some (data n)) s' \<and> cells s' = (cells s)(head s := None) \<and> head s' = next n"
proof -
  from pop_loop_result[OF refl assms] obtain s1 where
    "pop_loop (head s) s = Ok (head s) s1" "cells s1 = cells s" "head s1 = next n" by blast
  then show ?thesis using assms by (simp add: pop_def delete_def)
qed

lemma stack_inv_Nil: "stack_inv s [] xs \<longleftrightarrow> head s = nullptr \<and> xs = []"
  by (auto simp: stack_inv_def)

lemma stack_inv_remove:
  assumes "stack_inv s (a # as) (x # xs)" and "cells s a = Some n"
    and "cells s' = (cells s)(a := None)" and "head s' = next n"
  shows "stack_inv s' as xs"
proof -
  from assms(1,2) have ch: "chain (\<lambda>a. map_option next (cells s a)) (next n) as"
    and d: "a \<notin> set as" "distinct as"
    and v: "map (\<lambda>a. map_option data (cells s a)) as = map Some xs"
    by (auto simp: stack_inv_def split: option.splits)
  have "chain (\<lambda>b. map_option next (cells s' b)) (next n) as"
    using ch d chain_cong[of as "\<lambda>b. map_option next (cells s' b)" "\<lambda>a. map_option next (cells s a)" "next n"]
    by (auto simp: assms(3))
  moreover have "map (\<lambda>b. map_option data (cells s' b)) as = map (\<lambda>a. map_option data (cells s a)) as"
    using d by (auto simp: assms(3))
  ultimately show ?thesis
    using d v by (simp add: stack_inv_def assms(4))
qed

lemma stack_inv_Cons:
  assumes "stack_inv s (a # as) xs"
  shows "\<exists>n xs'. head s = a \<and> a \<noteq> nullptr \<and> cells s a = Some n \<and> xs = data n # xs'"
  using assms by (cases xs) (auto simp: stack_inv_def split: option.splits)

lemma stack_inv_pop:
  assumes "stack_inv s (a # as) xs"
  shows "\<exists>s' x xs'. xs = x # xs' \<and> pop s = Ok (Some x) s' \<and> stack_inv s' as xs' \<and>
           cells s' = (cells s)(a := None) \<and> head s = a"
proof -
  from stack_inv_Cons[OF assms] obtain n xs' where
    h: "head s = a" "a \<noteq> nullptr" "cells s a = Some n" "xs = data n # xs'" by blast
  from pop_result[of s n] h obtain s' where
    p: "pop s = Ok (Some (data n)) s'" "cells s' = (cells s)(a := None)" "head s' = next n"
    by auto
  from stack_inv_remove[OF _ h(3) p(2,3)] assms h have "stack_inv s' as xs'" by simp
  with p h show ?thesis by auto
qed

lemma stack_inv_ctor: "stack_inv (LockFreeStack_ctor s) [] []"
  by (simp add: stack_inv_def LockFreeStack_ctor_def)

lemma drain_result:
  "stack_inv s as xs \<Longrightarrow> \<exists>s'. drain acc s = Some (Ok (rev acc @ xs) s') \<and> stack_inv s' [] []"
proof (induction as arbitrary: s xs acc)
  case Nil
  then have "head s = nullptr" "xs = []" by (auto simp: stack_inv_Nil)
  with Nil show ?case by (subst drain.simps) (simp add: pop_empty)
next
  case (Cons a as)
  from stack_inv_pop[OF Cons.prems] obtain s1 x xs' where
    xs: "xs = x # xs'" and p: "pop s = Ok (Some x) s1" and i: "stack_inv s1 as xs'" by blast
  from Cons.IH[OF i, of "x # acc"] obtain s' where
    "drain (x # acc) s1 = Some (Ok (rev (x # acc) @ xs') s')" "stack_inv s' [] []" by blast
  then show ?case using p xs by (subst drain.simps) simp
qed

section \<open>ABAProneStack: push, pop and the invariant\<close>

lemma aba_push_loop_result:
  "cells s p = Some n \<Longrightarrow>
   \<exists>s'. aba_push_loop p e s = Ok () s' \<and> cells s' = (cells s)(p \<mapsto> n\<lparr>next := head s\<rparr>) \<and> head s' = p"
proof (induction p e s arbitrary: n rule: aba_push_loop.induct)
  case (1 p e s)
  show ?case
  proof (cases "compare_exchange_weak (head s) e (spurious s)")
    case True
    then have "e = head s" by (simp add: compare_exchange_weak_def)
    then show ?thesis
      using True "1.prems" by (subst aba_push_loop.simps) auto
  next
    case False
    let ?s' = "s\<lparr>cells := (cells s)(p \<mapsto> n\<lparr>next := e\<rparr>), spurious := tl (spurious s)\<rparr>"
    have "cells ?s' p = Some (n\<lparr>next := e\<rparr>)" by simp
    from "1.IH"[OF "1.prems" False this]
    show ?thesis
      using False "1.prems" by (subst aba_push_loop.simps) (auto simp: fun_eq_iff)
  qed
qed

lemma aba_push_result:
  assumes "aba_push x s = Ok u s'"
  shows "\<exists>a. a \<noteq> nullptr \<and> cells s a = None \<and>
     cells s' = (cells s)(a \<mapsto> \<lparr>data = x, next = head s\<rparr>) \<and> head s' = a"
proof -
  from assms obtain a s1 where n: "new \<lparr>data = x, next = nullptr\<rparr> s = Ok a s1"
    by (auto simp: aba_push_def split: result.splits)
  from new_Ok[OF n] have a: "a \<noteq> nullptr" "cells s a = None"
    and s1: "s1 = s\<lparr>cells := (cells s)(a \<mapsto> \<lparr>data = x, next = nullptr\<rparr>)\<rparr>" by auto
  have "cells s1 a = Some \<lparr>data = x, next = nullptr\<rparr>" by (simp add: s1)
  from aba_push_loop_result[OF this, of "head s1"] assms n
  have "cells s' = (cells s)(a \<mapsto> \<lparr>data = x, next = head s\<rparr>) \<and> head s' = a"
    by (auto simp: aba_push_def s1)
  with a show ?thesis by blast
qed

lemma aba_push_cases:
  "(\<exists>s'. aba_push x s = Ok () s') \<or> (aba_push x s = Bad_alloc s \<and> out_of_memory s)"
proof (cases "new \<lparr>data = x, next = nullptr\<rparr> s")
  case (Ok a s1)
  from new_Ok[OF Ok] have "cells s1 a = Some \<lparr>data = x, next = nullptr\<rparr>" by auto
  from aba_push_loop_result[OF this, of "head s1"] Ok show ?thesis by (auto simp: aba_push_def)
next
  case (Bad_alloc s1)
  with new_Bad_alloc[OF Bad_alloc] show ?thesis by (simp add: aba_push_def)
next
  case Undefined
  then show ?thesis by (simp add: new_not_Undefined)
qed

lemma stack_inv_aba_push:
  assumes "stack_inv s as xs" and "aba_push x s = Ok u s'"
  shows "\<exists>a. stack_inv s' (a # as) (x # xs)"
  using aba_push_result[OF assms(2)] stack_inv_extend[OF assms(1)] by blast

lemma aba_pop_from_null: "aba_pop_from nullptr s = Ok None s"
  by (simp add: aba_pop_from_def)

lemma aba_pop_from_current:
  "head s \<noteq> nullptr \<Longrightarrow> cells s (head s) = Some n \<Longrightarrow>
   \<exists>s'. aba_pop_from (head s) s = Ok (Some (data n)) s' \<and> cells s' = (cells s)(head s := None) \<and>
        head s' = next n"
  by (simp add: aba_pop_from_def compare_exchange_strong_def delete_def)

lemma aba_pop_from_stale:
  "p \<noteq> nullptr \<Longrightarrow> cells s p = Some n \<Longrightarrow> head s \<noteq> p \<Longrightarrow> aba_pop_from p s = Ok None s"
  by (simp add: aba_pop_from_def compare_exchange_strong_def)

lemma stack_inv_aba_pop:
  assumes "stack_inv s (a # as) xs"
  shows "\<exists>s' x xs'. xs = x # xs' \<and> aba_pop s = Ok (Some x) s' \<and> stack_inv s' as xs' \<and>
           cells s' = (cells s)(a := None) \<and> head s = a"
proof -
  from stack_inv_Cons[OF assms] obtain n xs' where
    h: "head s = a" "a \<noteq> nullptr" "cells s a = Some n" "xs = data n # xs'" by blast
  from aba_pop_from_current[of s n] h obtain s' where
    p: "aba_pop s = Ok (Some (data n)) s'" "cells s' = (cells s)(a := None)" "head s' = next n"
    by (auto simp: aba_pop_def)
  from stack_inv_remove[OF _ h(3) p(2,3)] assms h have "stack_inv s' as xs'" by simp
  with p h show ?thesis by auto
qed

section \<open>Heaps of nodes that point to their payload: frames\<close>

lemma load_Node_Some: "load_Node s a = Some n \<longleftrightarrow> cells s a = Some (Node_obj n)"
  by (auto simp: load_Node_def split: option.splits object.splits)

lemma load_T_Some: "load_T s a = Some v \<longleftrightarrow> cells s a = Some (T_obj v)"
  by (auto simp: load_T_def split: option.splits object.splits)

lemma links_Some: "links s a = Some q \<longleftrightarrow> (\<exists>n. cells s a = Some (Node_obj n) \<and> pnext n = q)"
  by (auto simp: links_def load_Node_Some)

lemma links_same: "cells s' a = cells s a \<Longrightarrow> links s' a = links s a"
  by (simp add: links_def load_Node_def)

lemma payload_ptr_same: "cells s' a = cells s a \<Longrightarrow> payload_ptr s' a = payload_ptr s a"
  by (simp add: payload_ptr_def load_Node_def)

lemma chain_links_same:
  "\<forall>a \<in> set as. cells s' a = cells s a \<Longrightarrow> chain (links s') p as = chain (links s) p as"
  by (rule chain_cong) (auto intro: links_same)

lemma chain_links_live:
  "chain (links s) p as \<Longrightarrow> a \<in> set as \<Longrightarrow> \<exists>n. cells s a = Some (Node_obj n)"
  using chain_live[of "links s" p as a] by (cases "links s a") (auto simp: links_Some)

lemma payloads_live:
  "payloads s as xs \<Longrightarrow> a \<in> set as \<Longrightarrow>
   payload_ptr s a \<noteq> nullptr \<and> (\<exists>v. cells s (payload_ptr s a) = Some (T_obj v))"
proof -
  assume p: "payloads s as xs" and a: "a \<in> set as"
  from p have eq: "map (payload s) as = map Some xs" by (simp add: payloads_def)
  have "payload s a \<in> set (map (payload s) as)" using a by simp
  then have "payload s a \<in> set (map Some xs)" by (simp only: eq)
  then obtain v where "payload s a = Some v" by auto
  then have "cells s (payload_ptr s a) = Some (T_obj v)" by (simp add: payload_def load_T_Some)
  moreover from p a have "payload_ptr s a \<noteq> nullptr" by (auto simp: payloads_def)
  ultimately show ?thesis by blast
qed

lemma payloads_same:
  assumes "payloads s as xs"
    and "\<forall>a \<in> set as. cells s' a = cells s a"
    and "\<forall>a \<in> set as. cells s' (payload_ptr s a) = cells s (payload_ptr s a)"
  shows "payloads s' as xs"
proof -
  have pp: "map (payload_ptr s') as = map (payload_ptr s) as"
    using assms(2) by (auto intro: payload_ptr_same)
  have "payload s' a = payload s a" if "a \<in> set as" for a
  proof -
    from that assms(2) have "payload_ptr s' a = payload_ptr s a" by (auto intro: payload_ptr_same)
    with that assms(3) show ?thesis by (simp add: payload_def load_T_def)
  qed
  then have m: "map (payload s') as = map (payload s) as" by simp
  show ?thesis using assms(1) unfolding payloads_def pp m .
qed

lemma payloads_Nil: "payloads s [] xs \<longleftrightarrow> xs = []"
  by (auto simp: payloads_def)

lemma payloads_Cons:
  "payloads s (a # as) xs \<longleftrightarrow>
     (\<exists>x xs'. xs = x # xs' \<and> payload s a = Some x \<and> payload_ptr s a \<noteq> nullptr \<and>
        payload_ptr s a \<notin> payload_ptr s ` set as \<and> payloads s as xs')"
  by (cases xs) (auto simp: payloads_def)

section \<open>LockFreeStack of 04_atomic_operations.cpp: push, pop and the invariant\<close>

lemma push04_loop_result:
  "load_Node s p = Some n \<Longrightarrow>
   \<exists>s'. push04_loop p s = Ok () s' \<and>
        cells s' = (cells s)(p \<mapsto> Node_obj (n\<lparr>pnext := head04 s\<rparr>)) \<and> head04 s' = p"
proof (induction p s arbitrary: n rule: push04_loop.induct)
  case (1 p s)
  show ?case
  proof (cases "compare_exchange_weak (head04 s) (pnext n) (spurious s)")
    case True
    then have "pnext n = head04 s" by (simp add: compare_exchange_weak_def)
    then have "(cells s)(p \<mapsto> Node_obj (n\<lparr>pnext := head04 s\<rparr>)) = cells s"
      using "1.prems" by (auto simp: fun_eq_iff load_Node_Some)
    then show ?thesis
      using True "1.prems" by (subst push04_loop.simps) auto
  next
    case False
    let ?s' = "s\<lparr>cells := (cells s)(p \<mapsto> Node_obj (n\<lparr>pnext := head04 s\<rparr>)),
                  spurious := tl (spurious s)\<rparr>"
    have "load_Node ?s' p = Some (n\<lparr>pnext := head04 s\<rparr>)" by (simp add: load_Node_def)
    from "1.IH"[OF "1.prems" False this]
    show ?thesis
      using False "1.prems" by (subst push04_loop.simps) (auto simp: fun_eq_iff)
  qed
qed

lemma push04_result:
  assumes "push04 x s = Ok u s'"
  shows "\<exists>a t. a \<noteq> nullptr \<and> t \<noteq> nullptr \<and> a \<noteq> t \<and> cells s a = None \<and> cells s t = None \<and>
     cells s' = (cells s)(a \<mapsto> Node_obj \<lparr>pdata = t, pnext = head04 s\<rparr>, t \<mapsto> T_obj x) \<and>
     head04 s' = a"
proof -
  from assms obtain a s1 where n: "new (Node_obj \<lparr>pdata = nullptr, pnext = nullptr\<rparr>) s = Ok a s1"
    by (auto simp: push04_def split: result.splits)
  from new_Ok[OF n] have a: "a \<noteq> nullptr" "cells s a = None"
    and s1: "s1 = s\<lparr>cells := (cells s)(a \<mapsto> Node_obj \<lparr>pdata = nullptr, pnext = nullptr\<rparr>)\<rparr>"
    by auto
  from assms n obtain t s2 where n2: "new (T_obj x) s1 = Ok t s2"
    by (auto simp: push04_def split: result.splits)
  from new_Ok[OF n2] have t: "t \<noteq> nullptr" "cells s1 t = None"
    and s2: "s2 = s1\<lparr>cells := (cells s1)(t \<mapsto> T_obj x)\<rparr>" by auto
  from t s1 have at: "a \<noteq> t" "cells s t = None" by (auto split: if_splits)
  have ld: "load_Node s2 a = Some \<lparr>pdata = nullptr, pnext = nullptr\<rparr>"
    using at by (simp add: load_Node_def s2 s1)
  let ?s3 = "s2\<lparr>cells := (cells s2)(a \<mapsto> Node_obj \<lparr>pdata = t, pnext = head04 s2\<rparr>)\<rparr>"
  have "load_Node ?s3 a = Some \<lparr>pdata = t, pnext = head04 s2\<rparr>" by (simp add: load_Node_def)
  from push04_loop_result[OF this] obtain s4 where
    l: "push04_loop a ?s3 = Ok () s4"
    and c4: "cells s4 = (cells ?s3)(a \<mapsto> Node_obj (\<lparr>pdata = t, pnext = head04 s2\<rparr>\<lparr>pnext := head04 ?s3\<rparr>))"
    and h4: "head04 s4 = a"
    by blast
  from assms n n2 ld l have "s' = s4" by (simp add: push04_def)
  moreover have "head04 s2 = head04 s" by (simp add: s1 s2)
  moreover have "cells ?s3 = (cells s)(a \<mapsto> Node_obj \<lparr>pdata = t, pnext = head04 s2\<rparr>, t \<mapsto> T_obj x)"
    using at by (simp add: s1 s2 fun_upd_twist)
  ultimately have "cells s' = (cells s)(a \<mapsto> Node_obj \<lparr>pdata = t, pnext = head04 s\<rparr>, t \<mapsto> T_obj x) \<and>
     head04 s' = a"
    using c4 h4 at by (simp add: fun_upd_twist)
  with a t at show ?thesis by blast
qed

lemma stack04_inv_push:
  assumes "stack04_inv s as xs" and "push04 x s = Ok u s'"
  shows "\<exists>a. stack04_inv s' (a # as) (x # xs)"
proof -
  from push04_result[OF assms(2)] obtain a t where
    a: "a \<noteq> nullptr" "t \<noteq> nullptr" "a \<noteq> t" "cells s a = None" "cells s t = None"
    and s': "cells s' = (cells s)(a \<mapsto> Node_obj \<lparr>pdata = t, pnext = head04 s\<rparr>, t \<mapsto> T_obj x)"
      "head04 s' = a"
    by blast
  from assms(1) have ch: "chain (links s) (head04 s) as" and d: "distinct as"
    and pl: "payloads s as xs" by (auto simp: stack04_inv_def)
  have live: "\<forall>b \<in> set as. cells s b \<noteq> None" using chain_links_live[OF ch] by auto
  then have same: "\<forall>b \<in> set as. cells s' b = cells s b" using a by (auto simp: s')
  have plive: "\<forall>b \<in> set as. cells s (payload_ptr s b) \<noteq> None" using payloads_live[OF pl] by auto
  then have psame: "\<forall>b \<in> set as. cells s' (payload_ptr s b) = cells s (payload_ptr s b)"
    using a by (auto simp: s')
  have notin: "a \<notin> set as" using live a by auto
  have c: "chain (links s') (head04 s) as" using ch chain_links_same[OF same] by simp
  have p: "payloads s' as xs" by (rule payloads_same[OF pl same psame])
  have pa: "payload_ptr s' a = t" "payload s' a = Some x" "links s' a = Some (head04 s)"
    using a by (auto simp: payload_def payload_ptr_def load_Node_def load_T_def links_def s')
  have "payload_ptr s' b \<noteq> t" if "b \<in> set as" for b
  proof -
    from that same have "payload_ptr s' b = payload_ptr s b" by (auto intro: payload_ptr_same)
    with that plive a show ?thesis by auto
  qed
  then have "t \<notin> payload_ptr s' ` set as" by auto
  with c p pa a d notin s'(2) show ?thesis
    by (auto simp: stack04_inv_def payloads_Cons)
qed

lemma push04_cases:
  "(\<exists>s'. push04 x s = Ok () s') \<or> (\<exists>s'. push04 x s = Bad_alloc s')"
proof (cases "new (Node_obj \<lparr>pdata = nullptr, pnext = nullptr\<rparr>) s")
  case (Ok a s1)
  from new_Ok[OF Ok] have a: "a \<noteq> nullptr" "cells s a = None"
    and s1: "s1 = s\<lparr>cells := (cells s)(a \<mapsto> Node_obj \<lparr>pdata = nullptr, pnext = nullptr\<rparr>)\<rparr>"
    by auto
  show ?thesis
  proof (cases "new (T_obj x) s1")
    case n2: (Ok t s2)
    from new_Ok[OF n2] have t: "t \<noteq> nullptr" "cells s1 t = None"
      and s2: "s2 = s1\<lparr>cells := (cells s1)(t \<mapsto> T_obj x)\<rparr>" by auto
    from t s1 have at: "a \<noteq> t" by (auto split: if_splits)
    have ld: "load_Node s2 a = Some \<lparr>pdata = nullptr, pnext = nullptr\<rparr>"
      using at by (simp add: load_Node_def s2 s1)
    let ?s3 = "s2\<lparr>cells := (cells s2)(a \<mapsto> Node_obj \<lparr>pdata = t, pnext = head04 s2\<rparr>)\<rparr>"
    have "load_Node ?s3 a = Some \<lparr>pdata = t, pnext = head04 s2\<rparr>" by (simp add: load_Node_def)
    from push04_loop_result[OF this] Ok n2 ld show ?thesis by (auto simp: push04_def)
  next
    case (Bad_alloc s2)
    with Ok show ?thesis by (simp add: push04_def)
  next
    case Undefined
    then show ?thesis by (simp add: new_not_Undefined)
  qed
next
  case (Bad_alloc s1)
  then show ?thesis by (simp add: push04_def)
next
  case Undefined
  then show ?thesis by (simp add: new_not_Undefined)
qed

lemma pop04_loop_empty: "pop04_loop nullptr s = Ok nullptr s"
  by (subst pop04_loop.simps) simp

lemma pop04_loop_result:
  "p = head04 s \<Longrightarrow> p \<noteq> nullptr \<Longrightarrow> load_Node s p = Some n \<Longrightarrow>
   \<exists>s'. pop04_loop p s = Ok p s' \<and> cells s' = cells s \<and> head04 s' = pnext n"
proof (induction p s rule: pop04_loop.induct)
  case (1 p s)
  show ?case
  proof (cases "compare_exchange_weak (head04 s) p (spurious s)")
    case True
    then show ?thesis using "1.prems" by (subst pop04_loop.simps) auto
  next
    case False
    have "load_Node (s\<lparr>spurious := tl (spurious s)\<rparr>) (head04 s) = Some n"
      using "1.prems" by (simp add: load_Node_def)
    from "1.IH"[OF "1.prems"(2) "1.prems"(3) False] "1.prems" this
    show ?thesis using False by (subst pop04_loop.simps) auto
  qed
qed

lemma pop04_empty: "head04 s = nullptr \<Longrightarrow> pop04 s = Ok nullptr s"
  by (simp add: pop04_def pop04_loop_empty)

lemma pop04_result:
  assumes "head04 s \<noteq> nullptr" and "load_Node s (head04 s) = Some n"
  shows "\<exists>s'. pop04 s = Ok (pdata n) s' \<and> cells s' = (cells s)(head04 s := None) \<and>
           head04 s' = pnext n"
proof -
  from pop04_loop_result[OF refl assms] obtain s1 where
    "pop04_loop (head04 s) s = Ok (head04 s) s1" "cells s1 = cells s" "head04 s1 = pnext n"
    by blast
  moreover from assms have "cells s (head04 s) = Some (Node_obj n)" by (simp add: load_Node_Some)
  ultimately show ?thesis using assms by (simp add: pop04_def delete_def load_Node_def)
qed

lemma stack04_inv_Nil: "stack04_inv s [] xs \<longleftrightarrow> head04 s = nullptr \<and> xs = []"
  by (auto simp: stack04_inv_def payloads_Nil)

lemma stack04_inv_pop:
  assumes "stack04_inv s (a # as) xs"
  shows "\<exists>s' x xs'. xs = x # xs' \<and> pop04_value s = Ok (Some x) s' \<and> stack04_inv s' as xs' \<and>
           cells s' = (cells s)(a := None, payload_ptr s a := None) \<and> head04 s = a"
proof -
  from assms have h: "head04 s = a" "a \<noteq> nullptr" and d: "a \<notin> set as" "distinct as"
    and pl: "payloads s (a # as) xs"
    by (auto simp: stack04_inv_def)
  from assms obtain q where q: "links s a = Some q" and ch: "chain (links s) q as"
    by (auto simp: stack04_inv_def split: option.splits)
  from q obtain n where n: "cells s a = Some (Node_obj n)" "pnext n = q"
    by (auto simp: links_Some)
  from pl obtain x xs' where xs: "xs = x # xs'" and px: "payload s a = Some x"
    and t: "payload_ptr s a \<noteq> nullptr" "payload_ptr s a \<notin> payload_ptr s ` set as"
    and pl': "payloads s as xs'"
    by (auto simp: payloads_Cons)
  let ?t = "payload_ptr s a"
  have tn: "?t = pdata n" using n by (simp add: payload_ptr_def load_Node_def)
  have tv: "cells s ?t = Some (T_obj x)" using px by (simp add: payload_def load_T_Some)
  have ta: "?t \<noteq> a" using tv n by auto
  from pop04_result[of s n] h n obtain s1 where
    p: "pop04 s = Ok ?t s1" and s1: "cells s1 = (cells s)(a := None)" "head04 s1 = q"
    by (auto simp: load_Node_Some tn)
  let ?s' = "s1\<lparr>cells := (cells s1)(?t := None)\<rparr>"
  have pv: "pop04_value s = Ok (Some x) ?s'"
    using p t tv ta by (simp add: pop04_value_def load_T_def delete_def s1)
  have live: "\<forall>b \<in> set as. \<exists>m. cells s b = Some (Node_obj m)" using chain_links_live[OF ch] by auto
  have same: "\<forall>b \<in> set as. cells ?s' b = cells s b"
    using d live tv by (auto simp: s1)
  have plive: "\<forall>b \<in> set as. \<exists>v. cells s (payload_ptr s b) = Some (T_obj v)"
    using payloads_live[OF pl'] by auto
  have "payload_ptr s b \<noteq> ?t \<and> payload_ptr s b \<noteq> a" if "b \<in> set as" for b
  proof -
    from that t(2) have "payload_ptr s b \<noteq> ?t" by (metis imageI)
    moreover from plive that n have "payload_ptr s b \<noteq> a" by auto
    ultimately show ?thesis by simp
  qed
  then have psame: "\<forall>b \<in> set as. cells ?s' (payload_ptr s b) = cells s (payload_ptr s b)"
    by (simp add: s1)
  have "chain (links ?s') q as" using ch chain_links_same[OF same] by simp
  moreover have "payloads ?s' as xs'" by (rule payloads_same[OF pl' same psame])
  ultimately have "stack04_inv ?s' as xs'" using d s1 by (simp add: stack04_inv_def)
  moreover have "cells ?s' = (cells s)(a := None, ?t := None)" by (simp add: s1)
  ultimately show ?thesis using pv xs h by blast
qed


lemma pop04_value_empty: "head04 s = nullptr \<Longrightarrow> pop04_value s = Ok None s"
  by (simp add: pop04_value_def pop04_empty)

section \<open>LockFreeQueue: one pass of the loops\<close>

lemma cas_same:
  "compare_exchange_weak p p sp \<or> (\<exists>bs. sp = True # bs)"
  by (cases sp) (auto simp: compare_exchange_weak_def)

lemma cas_fail_length:
  "\<not> compare_exchange_weak p p sp \<Longrightarrow> length (tl sp) < length sp"
  by (cases sp) (auto simp: compare_exchange_weak_def)

lemma dequeue_iter_empty:
  "load_Node s (q_head s) = Some fn \<Longrightarrow> q_tail s = q_head s \<Longrightarrow> pnext fn = nullptr \<Longrightarrow>
   dequeue_iter s = Return (Ok None s)"
  by (simp add: dequeue_iter_def)

lemma dequeue_iter_help:
  "load_Node s (q_head s) = Some fn \<Longrightarrow> q_tail s = q_head s \<Longrightarrow> pnext fn \<noteq> nullptr \<Longrightarrow>
   dequeue_iter s =
     Continue (if compare_exchange_weak (q_tail s) (q_tail s) (spurious s)
               then s\<lparr>q_tail := pnext fn, spurious := tl (spurious s)\<rparr>
               else s\<lparr>spurious := tl (spurious s)\<rparr>)"
  by (simp add: dequeue_iter_def)

lemma dequeue_iter_take:
  assumes "load_Node s (q_head s) = Some fn" "q_head s \<noteq> nullptr" "q_tail s \<noteq> q_head s"
    "pnext fn \<noteq> nullptr" "load_Node s (pnext fn) = Some nn" "pdata nn \<noteq> nullptr"
    "load_T s (pdata nn) = Some v"
  shows "dequeue_iter s =
     (if compare_exchange_weak (q_head s) (q_head s) (spurious s)
      then Return (Ok (Some v)
             (s\<lparr>q_head := pnext fn, spurious := tl (spurious s),
                cells := (cells s)(pdata nn := None, q_head s := None)\<rparr>))
      else Continue (s\<lparr>spurious := tl (spurious s)\<rparr>))"
proof -
  from assms(1) have c1: "cells s (q_head s) = Some (Node_obj fn)"
    by (simp add: load_Node_Some)
  from assms(7) have c2: "cells s (pdata nn) = Some (T_obj v)"
    by (simp add: load_T_Some)
  from c1 c2 have ne: "pdata nn \<noteq> q_head s" by auto
  with assms c1 c2 show ?thesis
    by (simp add: dequeue_iter_def Let_def load_T_def delete_def)
qed

lemma dequeue_unfold_Return: "dequeue_iter s = Return r \<Longrightarrow> dequeue s = Some r"
  by (subst dequeue.simps) simp

lemma dequeue_unfold_Continue: "dequeue_iter s = Continue s' \<Longrightarrow> dequeue s = dequeue s'"
  by (subst dequeue.simps) simp

lemma dequeue_nonempty_fields:
  assumes "load_Node s (q_head s) = Some fn" "q_head s \<noteq> nullptr"
    "pnext fn \<noteq> nullptr" "pnext fn \<noteq> q_head s" "load_Node s (pnext fn) = Some nn"
    "pdata nn \<noteq> nullptr" "load_T s (pdata nn) = Some v"
  shows "\<exists>s'. dequeue s = Some (Ok (Some v) s') \<and>
           cells s' = (cells s)(pdata nn := None, q_head s := None) \<and>
           q_head s' = pnext fn \<and>
           q_tail s' = (if q_tail s = q_head s then pnext fn else q_tail s)"
  using assms
proof (induction "length (spurious s) + (if q_tail s = q_head s then 1 else 0)"
        arbitrary: s rule: less_induct)
  case less
  note p = less.prems
  have step: "\<exists>s'. dequeue s = Some (Ok (Some v) s') \<and>
           cells s' = (cells s)(pdata nn := None, q_head s := None) \<and>
           q_head s' = pnext fn \<and>
           q_tail s' = (if q_tail s1 = q_head s then pnext fn else q_tail s1)"
    if it: "dequeue_iter s = Continue s1" and f: "cells s1 = cells s" "q_head s1 = q_head s"
      and m: "length (spurious s1) + (if q_tail s1 = q_head s1 then 1 else 0)
             < length (spurious s) + (if q_tail s = q_head s then 1 else 0)"
    for s1
  proof -
    have ld: "load_Node s1 = load_Node s" "load_T s1 = load_T s"
      using f by (simp_all add: fun_eq_iff load_Node_def load_T_def)
    from less.hyps[OF m] p have
      "\<exists>s'. dequeue s1 = Some (Ok (Some v) s') \<and>
           cells s' = (cells s1)(pdata nn := None, q_head s1 := None) \<and>
           q_head s' = pnext fn \<and>
           q_tail s' = (if q_tail s1 = q_head s1 then pnext fn else q_tail s1)"
      unfolding ld f by blast
    then show ?thesis
      unfolding f dequeue_unfold_Continue[OF it] .
  qed
  show ?case
  proof (cases "q_tail s = q_head s")
    case True
    note it = dequeue_iter_help[OF p(1) True p(3)]
    show ?thesis
    proof (cases "compare_exchange_weak (q_tail s) (q_tail s) (spurious s)")
      case c: True
      let ?s1 = "s\<lparr>q_tail := pnext fn, spurious := tl (spurious s)\<rparr>"
      from it c have "dequeue_iter s = Continue ?s1" by simp
      from step[OF this] True p(4) show ?thesis by (simp add: less_Suc_eq_le)
    next
      case c: False
      let ?s1 = "s\<lparr>spurious := tl (spurious s)\<rparr>"
      from it c have "dequeue_iter s = Continue ?s1" by simp
      from step[OF this] True cas_fail_length[OF c] show ?thesis by simp
    qed
  next
    case False
    note it = dequeue_iter_take[OF p(1,2) False p(3) p(5,6,7)]
    show ?thesis
    proof (cases "compare_exchange_weak (q_head s) (q_head s) (spurious s)")
      case c: True
      with it have "dequeue_iter s = Return (Ok (Some v)
             (s\<lparr>q_head := pnext fn, spurious := tl (spurious s),
                cells := (cells s)(pdata nn := None, q_head s := None)\<rparr>))" by simp
      from dequeue_unfold_Return[OF this] False show ?thesis by simp
    next
      case c: False
      let ?s1 = "s\<lparr>spurious := tl (spurious s)\<rparr>"
      from it c have "dequeue_iter s = Continue ?s1" by simp
      from step[OF this] False cas_fail_length[OF c] show ?thesis by simp
    qed
  qed
qed

lemma dequeue_empty_fields:
  "load_Node s (q_head s) = Some fn \<Longrightarrow> q_tail s = q_head s \<Longrightarrow> pnext fn = nullptr \<Longrightarrow>
   dequeue s = Some (Ok None s)"
  by (rule dequeue_unfold_Return) (rule dequeue_iter_empty)

section \<open>LockFreeQueue: the invariant\<close>

lemma chain_last: "chain nx p as \<Longrightarrow> as \<noteq> [] \<Longrightarrow> nx (last as) = Some nullptr"
  by (induction as arbitrary: p) (auto split: option.splits simp: chain_null)

lemma chain_hd: "chain nx p as \<Longrightarrow> as \<noteq> [] \<Longrightarrow> hd as = p"
  by (cases as) auto

lemma payloads_length: "payloads s as xs \<Longrightarrow> length as = length xs"
  unfolding payloads_def by (metis length_map)

lemma queue_inv_head:
  "queue_inv s as xs \<Longrightarrow>
   as \<noteq> [] \<and> hd as = q_head s \<and> q_head s \<noteq> nullptr \<and> q_tail s \<in> set as \<and>
   (\<exists>n. cells s (q_head s) = Some (Node_obj n)) \<and> length as = Suc (length xs)"
proof -
  assume i: "queue_inv s as xs"
  then have ne: "as \<noteq> []" and ch: "chain (links s) (q_head s) as"
    and t: "q_tail s = last as \<or> (butlast as \<noteq> [] \<and> q_tail s = last (butlast as))"
    and pl: "payloads s (tl as) xs"
    by (auto simp: queue_inv_def)
  from chain_hd[OF ch ne] have h: "hd as = q_head s" .
  with ne have hin: "q_head s \<in> set as" by (metis hd_in_set)
  from chain_nonnull[OF ch] hin have "q_head s \<noteq> nullptr" by metis
  moreover from t ne have "q_tail s \<in> set as"
    by (metis in_set_butlastD last_in_set)
  moreover from chain_links_live[OF ch hin] have "\<exists>n. cells s (q_head s) = Some (Node_obj n)" .
  moreover from payloads_length[OF pl] ne have "length as = Suc (length xs)"
    by (cases as) auto
  ultimately show ?thesis using ne h by blast
qed


lemma queue_inv_dequeue_empty:
  assumes "queue_inv s as []"
  shows "dequeue s = Some (Ok None s) \<and> as = [q_head s]"
proof -
  from assms have ne: "as \<noteq> []" and ch: "chain (links s) (q_head s) as"
    and t: "q_tail s = last as \<or> (butlast as \<noteq> [] \<and> q_tail s = last (butlast as))"
    and pl: "payloads s (tl as) []"
    by (auto simp: queue_inv_def)
  from pl have "tl as = []" by (simp add: payloads_def)
  with ne chain_hd[OF ch ne] have as: "as = [q_head s]" by (cases as) auto
  with t have tl: "q_tail s = q_head s" by (metis butlast.simps(2) last.simps)
  from chain_last[OF ch ne] as obtain fn where
    "load_Node s (q_head s) = Some fn" "pnext fn = nullptr"
    by (metis last.simps links_Some load_Node_Some)
  from dequeue_empty_fields[OF this(1) tl this(2)] as show ?thesis by simp
qed

lemma queue_inv_dequeue:
  assumes i: "queue_inv s as (x # xs)"
  shows "\<exists>s'. dequeue s = Some (Ok (Some x) s') \<and> queue_inv s' (tl as) xs \<and>
           q_head s' = hd (tl as) \<and> hd as = q_head s \<and>
           cells s' = (cells s)(payload_ptr s (hd (tl as)) := None, q_head s := None)"
proof -
  from i have ne: "as \<noteq> []" and ch: "chain (links s) (q_head s) as" and dist: "distinct as"
    and t: "q_tail s = last as \<or> (butlast as \<noteq> [] \<and> q_tail s = last (butlast as))"
    and pl: "payloads s (tl as) (x # xs)"
    by (auto simp: queue_inv_def)
  from pl have "tl as \<noteq> []" by (auto simp: payloads_Nil)
  with ne obtain a0 a1 rest where as: "as = a0 # a1 # rest"
    by (metis list.exhaust_sel)
  from ch as obtain fn where h: "q_head s = a0" "a0 \<noteq> nullptr"
    and fn: "cells s a0 = Some (Node_obj fn)" "pnext fn = a1" and ch1: "chain (links s) a1 (a1 # rest)"
    by (auto split: option.splits simp: links_Some)
  from ch1 have a1: "a1 \<noteq> nullptr" by simp
  from dist as have a01: "a1 \<noteq> a0" "a0 \<notin> set (a1 # rest)" "distinct (a1 # rest)" by auto
  from chain_links_live[OF ch1, of a1] obtain nn where nn: "cells s a1 = Some (Node_obj nn)" by auto
  from pl as have px: "payload s a1 = Some x" "payload_ptr s a1 \<noteq> nullptr"
    "payload_ptr s a1 \<notin> payload_ptr s ` set rest" "payloads s rest xs"
    by (auto simp: payloads_Cons)
  have pd: "payload_ptr s a1 = pdata nn" using nn by (simp add: payload_ptr_def load_Node_def)
  from px(1) have tv: "cells s (pdata nn) = Some (T_obj x)"
    by (simp add: payload_def pd load_T_Some)
  have l1: "load_Node s (q_head s) = Some fn" using fn h by (simp add: load_Node_Some)
  have l2: "load_Node s (pnext fn) = Some nn" using nn fn by (simp add: load_Node_Some)
  have l3: "load_T s (pdata nn) = Some x" using tv by (simp add: load_T_Some)
  from dequeue_nonempty_fields[OF l1 _ _ _ l2 _ l3] h fn a1 a01 px(2) pd
  obtain s' where dq: "dequeue s = Some (Ok (Some x) s')"
    and c: "cells s' = (cells s)(pdata nn := None, a0 := None)"
    and h': "q_head s' = a1" and t': "q_tail s' = (if q_tail s = a0 then a1 else q_tail s)"
    by auto
  have live: "\<forall>b \<in> set (a1 # rest). \<exists>m. cells s b = Some (Node_obj m)"
    using chain_links_live[OF ch1] by auto
  have same: "\<forall>b \<in> set (a1 # rest). cells s' b = cells s b"
  proof
    fix b assume b: "b \<in> set (a1 # rest)"
    with live tv have "b \<noteq> pdata nn" by auto
    moreover from b a01 have "b \<noteq> a0" by auto
    ultimately show "cells s' b = cells s b" by (simp add: c)
  qed
  have ch': "chain (links s') a1 (a1 # rest)"
    using ch1 by (simp only: chain_links_same[OF same])
  have plive: "\<forall>b \<in> set rest. \<exists>v. cells s (payload_ptr s b) = Some (T_obj v)"
    using payloads_live[OF px(4)] by auto
  have psame: "\<forall>b \<in> set rest. cells s' (payload_ptr s b) = cells s (payload_ptr s b)"
  proof
    fix b assume b: "b \<in> set rest"
    with px(3) have "payload_ptr s b \<noteq> pdata nn" unfolding pd by (metis imageI)
    moreover from plive b fn have "payload_ptr s b \<noteq> a0" by auto
    ultimately show "cells s' (payload_ptr s b) = cells s (payload_ptr s b)" by (simp add: c)
  qed
  have same': "\<forall>b \<in> set rest. cells s' b = cells s b" using same by simp
  have pl': "payloads s' rest xs" by (rule payloads_same[OF px(4) same' psame])
  have tl': "q_tail s' = last (a1 # rest) \<or>
     (butlast (a1 # rest) \<noteq> [] \<and> q_tail s' = last (butlast (a1 # rest)))"
  proof (cases "rest = []")
    case True
    with t as have "q_tail s = a1 \<or> q_tail s = a0" by auto
    with t' a01 True show ?thesis by auto
  next
    case False
    have "a0 \<noteq> last (a1 # rest)" using a01(2) by (metis last_in_set list.distinct(1))
    moreover have "a0 \<noteq> last (butlast (a1 # rest))"
      using a01(2) False by (metis butlast.simps(2) in_set_butlastD last_in_set list.distinct(1))
    ultimately show ?thesis using t t' as False by auto
  qed
  have "queue_inv s' (tl as) xs"
    using ch' a01(3) tl' pl' h' by (simp add: queue_inv_def as)
  with dq h' h c pd show ?thesis by (simp add: as)
qed

lemma drain_queue_result:
  "queue_inv s as xs \<Longrightarrow>
   \<exists>s'. drain_queue acc s = Some (Ok (rev acc @ xs) s') \<and> queue_inv s' [q_head s'] []"
proof (induction xs arbitrary: s as acc)
  case Nil
  from queue_inv_dequeue_empty[OF Nil] Nil show ?case
    by (subst drain_queue.simps) auto
next
  case (Cons x xs)
  from queue_inv_dequeue[OF Cons.prems] obtain s1 where
    d: "dequeue s = Some (Ok (Some x) s1)" and i: "queue_inv s1 (tl as) xs" by blast
  from Cons.IH[OF i, of "x # acc"] obtain s' where
    "drain_queue (x # acc) s1 = Some (Ok (rev (x # acc) @ xs) s')" "queue_inv s' [q_head s'] []"
    by blast
  then show ?case using d by (subst drain_queue.simps) simp
qed

section \<open>Partial correctness of the loop of dequeue, and allocation failure in push\<close>







section \<open>LockFreeStack of 04_atomic_operations.cpp against a sequential stack\<close>

lemma run04_lifo:
  "stack04_inv s as xs \<Longrightarrow>
   (\<exists>s' bs ys. run04 ops s = Ok (lifo ops xs) s' \<and> stack04_inv s' bs ys) \<or>
   (\<exists>s'. run04 ops s = Bad_alloc s')"
proof (induction ops xs arbitrary: s as rule: lifo.induct)
  case (1 xs)
  then show ?case by auto
next
  case (2 x ops xs)
  from push04_cases[of x s] show ?case
  proof
    assume "\<exists>s'. push04 x s = Ok () s'"
    then obtain s1 where p: "push04 x s = Ok () s1" ..
    from stack04_inv_push[OF "2.prems" p] obtain a where "stack04_inv s1 (a # as) (x # xs)" ..
    from "2.IH"[OF this] p show ?thesis by auto
  next
    assume "\<exists>s'. push04 x s = Bad_alloc s'"
    then show ?thesis by auto
  qed
next
  case (3 ops)
  then have "head04 s = nullptr" by (auto simp: stack04_inv_def payloads_def)
  then have p: "pop04_value s = Ok None s" by (rule pop04_value_empty)
  from "3.IH"[OF "3.prems"] p show ?case by auto
next
  case (4 ops x xs)
  from "4.prems" obtain a as' where as: "as = a # as'"
    by (cases as) (auto simp: stack04_inv_Nil)
  from stack04_inv_pop[OF "4.prems"[unfolded as]] obtain s1 where
    p: "pop04_value s = Ok (Some x) s1" and i: "stack04_inv s1 as' xs" by auto
  from "4.IH"[OF i] p show ?case by auto
next
  case (5 ops xs)
  have "empty04 s = (xs = [])"
  proof (cases as)
    case Nil
    with "5.prems" show ?thesis by (simp add: stack04_inv_Nil empty04_def)
  next
    case (Cons a as')
    with "5.prems" show ?thesis by (auto simp: empty04_def stack04_inv_def payloads_Cons)
  qed
  with "5.IH"[OF "5.prems"] show ?case by auto
qed


section \<open>A stale \<open>old_head\<close> in the loop of pop\<close>

text \<open>
  The loop of \<open>pop\<close> in atomic.cpp started from an \<open>old_head\<close> that is not the current
  head: it ends with a null \<open>old_head\<close> only after loading a null head, and it reads
  through \<open>old_head\<close> even when that node has been deleted meanwhile.
\<close>

lemma pop_loop_null: "pop_loop p s = Ok nullptr s' \<Longrightarrow> p = nullptr \<or> head s = nullptr"
proof (induction p s rule: pop_loop.induct)
  case (1 p s)
  show ?case
  proof (cases "p = nullptr")
    case True
    then show ?thesis by simp
  next
    case False
    show ?thesis
    proof (cases "cells s p")
      case None
      with False "1.prems" show ?thesis by (subst (asm) pop_loop.simps) simp
    next
      case (Some n)
      show ?thesis
      proof (cases "compare_exchange_weak (head s) p (spurious s)")
        case True
        with False Some "1.prems" show ?thesis by (subst (asm) pop_loop.simps) simp
      next
        case c: False
        with False Some "1.prems"
        have "pop_loop (head s) (s\<lparr>spurious := tl (spurious s)\<rparr>) = Ok nullptr s'"
          by (subst (asm) pop_loop.simps) simp
        from "1.IH"[OF False Some c this] show ?thesis by simp
      qed
    qed
  qed
qed

lemma pop_loop_use_after_free: "p \<noteq> nullptr \<Longrightarrow> cells s p = None \<Longrightarrow> pop_loop p s = Undefined"
  by (subst pop_loop.simps) simp

section \<open>Running the model on concrete states\<close>

text \<open>The equations that evaluate the operations on a concrete state.\<close>

lemmas eval_defs =
  raw_stack_def raw_stack04_def raw_queue_def LockFreeStack_ctor_def LockFreeStack04_ctor_def
  LockFreeQueue_ctor_def pop_def pop_loop.simps new_def delete_def
  first_fit_def upt_rec compare_exchange_weak_def compare_exchange_strong_def
  push04_def push04_loop.simps pop04_def pop04_loop.simps pop04_value_def load_Node_def load_T_def
  aba_push_def aba_push_loop.simps aba_pop_def aba_pop_from_def
  dequeue.simps dequeue_iter_def

lemmas eval_states = one_pushed_def two_pushed_def one_popped_def one_enqueued_def one_dequeued_def
  lagging_tail_def empty_queue_def






lemma run04_demo:
  "\<exists>r'. run04 [Empty, Push 1, Push 2, Empty, Pop, Pop, Pop, Empty]
      (LockFreeStack04_ctor (raw_stack04 8 [False, True] :: int32 LockFreeStack04)) =
    Ok [Emptiness True, Emptiness False, Popped (Some 2), Popped (Some 1), Popped None,
        Emptiness True] r'"
  by (simp add: eval_defs empty04_def)

lemma one_pushed_reached: "aba_push 1 (LockFreeStack_ctor (raw_stack 8 [])) = Ok () one_pushed"
  by (simp add: eval_defs eval_states)

lemma two_pushed_reached: "aba_push 2 one_pushed = Ok () two_pushed"
  by (simp add: eval_defs eval_states fun_eq_iff)

lemma pop_one_pushed: "pop one_pushed = Ok (Some 1) one_popped"
  by (simp add: eval_defs eval_states)

lemma stack_inv_pushed:
  "stack_inv one_pushed [1] [1] \<and> stack_inv two_pushed [2, 1] [2, 1]"
  by (simp add: stack_inv_def eval_states)


lemma dequeue_one_enqueued: "dequeue one_enqueued = Some (Ok (Some 7) one_dequeued)"
  by (simp add: eval_defs eval_states Let_def)



lemma queue_inv_enqueued:
  "queue_inv one_enqueued [1, 2] [7] \<and> queue_inv lagging_tail [1, 2] [7] \<and>
   queue_inv one_dequeued [2] []"
  by (simp add: queue_inv_def payloads_def payload_def payload_ptr_def links_def load_Node_def
      load_T_def eval_states)

section \<open>The claims\<close>

text \<open>
  C3.  The claim: on every successful \<open>pop\<close> and \<open>dequeue\<close> the unlinked node is handed to a
  reclamation subsystem and freed later, not deleted inside the operation.  The classes
  have no reclamation subsystem and no hazard records: \<open>pop\<close> and \<open>dequeue\<close> call
  \<^verbatim>\<open>delete\<close> themselves.  On the well-formed stack that holds 1 in the node at address 1,
  that node is gone from the heap when \<open>pop\<close> returns; on the well-formed queue that holds 7
  behind the dummy node at address 1, the dummy node is gone when \<open>dequeue\<close> returns.
\<close>

theorem node_deleted_inside_operation:
  "stack_inv one_pushed [1] [1] \<and>
   pop one_pushed = Ok (Some 1) one_popped \<and>
   cells one_pushed 1 \<noteq> None \<and> cells one_popped 1 = None \<and>
   queue_inv one_enqueued [1, 2] [7] \<and>
   dequeue one_enqueued = Some (Ok (Some 7) one_dequeued) \<and>
   cells one_enqueued 1 \<noteq> None \<and> cells one_dequeued 1 = None"
  using stack_inv_pushed pop_one_pushed queue_inv_enqueued dequeue_one_enqueued
  by (simp add: eval_states)

text \<open>
  C3 as amended.  A successful \<open>pop\<close> deletes the node it has unlinked (the old head)
  before it returns, and a successful \<open>dequeue\<close> deletes the old dummy node and the payload
  object of the value it returns; nothing else is freed.  The deleted node was live and,
  in the state returned, is not among the nodes reachable from \<open>head\<close>, which still
  satisfy the invariant.
\<close>

theorem unlinked_node_deleted_by_operation:
  "(stack_inv s as xs \<and> pop s = Ok (Some v) s' \<longrightarrow>
      head s \<noteq> nullptr \<and> cells s (head s) \<noteq> None \<and> cells s' = (cells s)(head s := None) \<and>
      stack_inv s' (tl as) (tl xs) \<and> head s \<notin> set (tl as)) \<and>
   (queue_inv q bs ys \<and> dequeue q = Some (Ok (Some w) q') \<longrightarrow>
      q_head q \<noteq> nullptr \<and> cells q (q_head q) \<noteq> None \<and>
      cells q' = (cells q)(payload_ptr q (hd (tl bs)) := None, q_head q := None) \<and>
      queue_inv q' (tl bs) (tl ys) \<and> q_head q \<notin> set (tl bs))"
proof (intro conjI impI)
  assume a: "stack_inv s as xs \<and> pop s = Ok (Some v) s'"
  then have i: "stack_inv s as xs" and p: "pop s = Ok (Some v) s'" by simp_all
  from i p obtain a as' where as: "as = a # as'"
    by (cases as) (auto simp: stack_inv_Nil pop_empty)
  from stack_inv_pop[OF i[unfolded as]] p obtain x xs' where
    r: "xs = x # xs'" "stack_inv s' as' xs'" "cells s' = (cells s)(a := None)" "head s = a"
    by auto
  from stack_inv_Cons[OF i[unfolded as]] have l: "a \<noteq> nullptr" "cells s a \<noteq> None" by auto
  from i as have d: "a \<notin> set as'" by (simp add: stack_inv_def)
  from r l d as show "head s \<noteq> nullptr" "cells s (head s) \<noteq> None"
    "cells s' = (cells s)(head s := None)" "stack_inv s' (tl as) (tl xs)" "head s \<notin> set (tl as)"
    by simp_all
next
  assume a: "queue_inv q bs ys \<and> dequeue q = Some (Ok (Some w) q')"
  then have i: "queue_inv q bs ys" and p: "dequeue q = Some (Ok (Some w) q')" by simp_all
  from i p obtain y ys' where ys: "ys = y # ys'"
    using queue_inv_dequeue_empty[of q bs] by (cases ys) auto
  from queue_inv_dequeue[OF i[unfolded ys]] p have
    r: "queue_inv q' (tl bs) ys'" "hd bs = q_head q"
      "cells q' = (cells q)(payload_ptr q (hd (tl bs)) := None, q_head q := None)"
    by auto
  from queue_inv_head[OF i] have l: "q_head q \<noteq> nullptr" "cells q (q_head q) \<noteq> None" "bs \<noteq> []"
    by auto
  from i have "distinct bs" by (simp add: queue_inv_def)
  with l(3) r(2) have d: "q_head q \<notin> set (tl bs)" by (cases bs) auto
  from r l d ys show "q_head q \<noteq> nullptr" "cells q (q_head q) \<noteq> None"
    "cells q' = (cells q)(payload_ptr q (hd (tl bs)) := None, q_head q := None)"
    "queue_inv q' (tl bs) (tl ys)" "q_head q \<notin> set (tl bs)"
    by simp_all
qed

theorem unlinked_node_deleted_by_operation_witness:
  "(stack_inv one_pushed [1] [1] \<and> pop one_pushed = Ok (Some 1) one_popped) \<and>
   cells one_popped = (cells one_pushed)(1 := None) \<and> stack_inv one_popped [] [] \<and>
   (queue_inv one_enqueued [1, 2] [7] \<and> dequeue one_enqueued = Some (Ok (Some 7) one_dequeued)) \<and>
   cells one_dequeued = (cells one_enqueued)(3 := None, 1 := None) \<and>
   queue_inv one_dequeued [2] []"
proof -
  have a: "stack_inv one_pushed [1] [1] \<and> pop one_pushed = Ok (Some 1) one_popped"
    using stack_inv_pushed pop_one_pushed by simp
  have b: "queue_inv one_enqueued [1, 2] [7] \<and>
      dequeue one_enqueued = Some (Ok (Some 7) one_dequeued)"
    using queue_inv_enqueued dequeue_one_enqueued by simp
  have c: "head one_pushed = 1" "q_head one_enqueued = 1" "payload_ptr one_enqueued 2 = 3"
    by (simp_all add: eval_states payload_ptr_def load_Node_def)
  note T = unlinked_node_deleted_by_operation[of one_pushed "[1]" "[1]" 1 one_popped
      one_enqueued "[1, 2]" "[7]" 7 one_dequeued]
  from T[THEN conjunct1, rule_format, OF a] c(1)
  have r1: "cells one_popped = (cells one_pushed)(1 := None) \<and> stack_inv one_popped [] []"
    by simp
  from T[THEN conjunct2, rule_format, OF b] c(2,3)
  have r2: "cells one_dequeued = (cells one_enqueued)(3 := None, 1 := None) \<and>
      queue_inv one_dequeued [2] []"
    by simp
  from a b r1 r2 show ?thesis by simp
qed



text \<open>
  C5.  The claim: \<open>pop\<close> returns false if and only if the stack was observed empty at some
  instant during the call.  \<^verbatim>\<open>ABAProneStack::pop\<close> makes one
  \<^verbatim>\<open>compare_exchange_strong\<close> and returns false when it fails.  Here \<open>pop\<close> has loaded
  \<open>old_head\<close> from a stack holding 1; a \<open>push(2)\<close> of another thread completes before the
  exchange; the exchange fails and \<open>pop\<close> returns false, although the stack held one
  element and then two.
\<close>

theorem aba_pop_false_on_nonempty_stack:
  "aba_push 1 (LockFreeStack_ctor (raw_stack 8 [])) = Ok () one_pushed \<and>
   aba_push 2 one_pushed = Ok () two_pushed \<and>
   stack_inv one_pushed [1] [1] \<and> stack_inv two_pushed [2, 1] [2, 1] \<and>
   head one_pushed \<noteq> nullptr \<and>
   aba_pop_from (head one_pushed) two_pushed = Ok None two_pushed"
  using one_pushed_reached two_pushed_reached stack_inv_pushed
  by (simp add: aba_pop_from_def compare_exchange_strong_def eval_states)

text \<open>
  C5 as amended.  With no interference, on every well-formed stack \<open>pop\<close> returns (it
  neither blocks nor has undefined behaviour), it returns false exactly when the stack is
  empty, and otherwise it returns the most recently pushed element not yet popped and
  leaves the rest; this holds for \<^verbatim>\<open>LockFreeStack::pop\<close> of atomic.cpp and for
  \<^verbatim>\<open>ABAProneStack::pop\<close>.  When \<open>head\<close> has changed since \<open>old_head\<close> was loaded,
  \<^verbatim>\<open>ABAProneStack::pop\<close> returns false and leaves the stack as it is, while the loop of
  \<^verbatim>\<open>LockFreeStack::pop\<close> ends with a null \<open>old_head\<close> only if it has loaded a null \<open>head\<close>.
\<close>

theorem pop_false_iff_empty:
  fixes s :: "'a LockFreeStack" and r :: ABAProneStack
  shows
  "(stack_inv s as xs \<longrightarrow>
      (\<exists>t. pop s = Ok (case xs of [] \<Rightarrow> None | x # xs' \<Rightarrow> Some x) t \<and>
           stack_inv t (tl as) (tl xs)) \<and>
      ((\<exists>t. pop s = Ok None t) = (xs = []))) \<and>
   (stack_inv r bs ys \<longrightarrow>
      (\<exists>t. aba_pop r = Ok (case ys of [] \<Rightarrow> None | y # ys' \<Rightarrow> Some y) t \<and>
           stack_inv t (tl bs) (tl ys)) \<and>
      ((\<exists>t. aba_pop r = Ok None t) = (ys = []))) \<and>
   (p \<noteq> nullptr \<and> cells r p \<noteq> None \<and> head r \<noteq> p \<longrightarrow> aba_pop_from p r = Ok None r) \<and>
   (pop_loop p s = Ok nullptr s' \<longrightarrow> p = nullptr \<or> head s = nullptr)"
proof (intro conjI impI)
  assume i: "stack_inv s as xs"
  show "\<exists>t. pop s = Ok (case xs of [] \<Rightarrow> None | x # xs' \<Rightarrow> Some x) t \<and> stack_inv t (tl as) (tl xs)"
  proof (cases as)
    case Nil
    with i have "head s = nullptr" "xs = []" by (simp_all add: stack_inv_Nil)
    with pop_empty[of s] i Nil show ?thesis by auto
  next
    case (Cons a as')
    from stack_inv_pop[OF i[unfolded Cons]] Cons show ?thesis by auto
  qed
  then show "(\<exists>t. pop s = Ok None t) = (xs = [])" by (cases xs) auto
next
  assume i: "stack_inv r bs ys"
  show "\<exists>t. aba_pop r = Ok (case ys of [] \<Rightarrow> None | y # ys' \<Rightarrow> Some y) t \<and>
           stack_inv t (tl bs) (tl ys)"
  proof (cases bs)
    case Nil
    with i have "head r = nullptr" "ys = []" by (simp_all add: stack_inv_Nil)
    with aba_pop_from_null[of r] i Nil show ?thesis by (auto simp: aba_pop_def)
  next
    case (Cons a as')
    from stack_inv_aba_pop[OF i[unfolded Cons]] Cons show ?thesis by auto
  qed
  then show "(\<exists>t. aba_pop r = Ok None t) = (ys = [])" by (cases ys) auto
next
  assume "p \<noteq> nullptr \<and> cells r p \<noteq> None \<and> head r \<noteq> p"
  then show "aba_pop_from p r = Ok None r" by (auto simp: aba_pop_from_stale)
next
  assume "pop_loop p s = Ok nullptr s'"
  then show "p = nullptr \<or> head s = nullptr" by (rule pop_loop_null)
qed

theorem pop_false_iff_empty_witness:
  "stack_inv two_pushed [2, 1] [2, 1] \<and>
   (\<exists>t. pop two_pushed = Ok (Some 2) t \<and> stack_inv t [1] [1]) \<and>
   (\<exists>t. aba_pop two_pushed = Ok (Some 2) t \<and> stack_inv t [1] [1]) \<and>
   (1 \<noteq> nullptr \<and> cells two_pushed 1 \<noteq> None \<and> head two_pushed \<noteq> 1) \<and>
   aba_pop_from 1 two_pushed = Ok None two_pushed \<and>
   pop_loop nullptr one_popped = Ok nullptr one_popped"
proof -
  have a: "stack_inv two_pushed [2, 1] [2, 1]" using stack_inv_pushed by simp
  have b: "1 \<noteq> nullptr \<and> cells two_pushed 1 \<noteq> None \<and> head two_pushed \<noteq> 1"
    by (simp add: eval_states)
  note T = pop_false_iff_empty[of two_pushed "[2, 1]" "[2, 1]" two_pushed "[2, 1]" "[2, 1]" 1
      one_popped]
  from T[THEN conjunct1, rule_format, OF a]
  have r1: "\<exists>t. pop two_pushed = Ok (Some 2) t \<and> stack_inv t [1] [1]" by simp
  from T[THEN conjunct2, THEN conjunct1, rule_format, OF a]
  have r2: "\<exists>t. aba_pop two_pushed = Ok (Some 2) t \<and> stack_inv t [1] [1]" by simp
  from T[THEN conjunct2, THEN conjunct2, THEN conjunct1, rule_format, OF b]
  have r3: "aba_pop_from 1 two_pushed = Ok None two_pushed" .
  have r4: "pop_loop nullptr one_popped = Ok nullptr one_popped" by (rule pop_loop_empty)
  from a b r1 r2 r3 r4 show ?thesis by simp
qed







text \<open>
  C1, C2 and C10 are about what calls of \<open>push\<close> of \<^verbatim>\<open>LockFreeStack\<close> and of \<open>enqueue\<close> of
  \<^verbatim>\<open>LockFreeQueue\<close> of atomic.cpp leave behind: every pushed or enqueued value is drained
  once (C1), three enqueued values are dequeued in their order (C2), and the stack of
  atomic.cpp shows what the stack of 04_atomic_operations.cpp shows (C10).  Both member
  functions are ill-formed (line 57 and line 131), so no call of them exists and no
  theorem is stated about one.  What these claims need of the functions that do exist is
  proved above: a drain of a well-formed stack or queue returns, with exactly the
  elements it holds (\<open>drain_result\<close>, \<open>drain_queue_result\<close>); \<open>dequeue\<close> returns the oldest
  element (\<open>queue_inv_dequeue\<close>); \<open>pop\<close> returns the newest (\<open>stack_inv_pop\<close>); and the stack of
  04_atomic_operations.cpp shows the observations of a sequential LIFO stack
  (\<open>run04_lifo\<close>).
\<close>

text \<open>
  C8 is about the \<^verbatim>\<open>std::memory_order\<close> of the atomic operations.  The operations of the
  four classes name none (every load, store and exchange above takes the default), and
  the states of this development, which are those of one thread, have no ordering
  between threads to state it over; it is not formalised.
\<close>

end
